theory Spec2Isabelle
  imports Complex_Main "HOL-Library.Product_Lexorder" "HOL-Library.Multiset"
begin

section \<open>Data model of engine.py\<close>

text \<open>
  Numbers: Python floats are modelled by exact reals (\<^typ>\<open>real\<close>): a value of
  the model is the exact value the program holds, and \<open>+\<close>, \<open>-\<close>, \<open>*\<close>, \<open>/\<close> are the
  exact operations the code writes down, without binary rounding. Where an outcome
  depends on the binary64 representation it is modelled apart: \<open>to_double\<close> gives the
  double next to a real, \<open>py_round3\<close> uses it to decide a tie, and the delivery
  computation has a second version that rounds after every operation.
  A \<open>pd.Timestamp\<close> is a whole number of seconds counted from a midnight; a
  \<open>timedelta(minutes=m)\<close> is \<open>60 * m\<close> seconds.

  A \<open>pd.Series\<close> over the time index is a function on timestamps; only its values at
  labels of the index are meaningful. Every \<open>.loc\<close> access of the source is at a label
  taken from the index (the greedy scheduler draws its bins from \<open>time_index\<close>, the
  baseline guards with \<open>t in load.index\<close>), so no KeyError branch is needed. Labels
  of the index are pairwise different (\<open>make_time_index\<close> produces such an index);
  the theorems about the scheduler assume it where they need it.

  The bin width \<open>bin_minutes\<close> is a positive whole number of minutes (1 to 60 in the
  callers); the theorems assume \<open>0 < bin_minutes\<close>.
\<close>

type_synonym timestamp = int

type_synonym 'a series = "timestamp \<Rightarrow> 'a"

record tou_block =
  start_hour :: real
  end_hour :: real
  rate_per_kwh :: real

record Tariff =
  flat_energy_rate_per_kwh :: real
  demand_charge_per_kw :: real
  tou_blocks :: "tou_block list"

record session =
  session_id :: string
  vehicle_id :: string
  earliest_start :: timestamp
  latest_end :: timestamp
  energy_kwh :: real
  max_kw :: real

text \<open>One row of the schedule frame built by \<open>greedy_optimize_schedule\<close>.\<close>

record schedule_entry =
  row_session_id :: string
  row_vehicle_id :: string
  row_bin_start :: timestamp
  row_kw :: real
  row_kwh :: real

text \<open>
  Ghost record, not a value of the source: the local variables \<open>s\<close>, \<open>t\<close>,
  \<open>used_kw\<close> and \<open>deliver\<close> at the moment a row is appended, before rounding.
\<close>

record delivery =
  d_session :: session
  d_bin :: timestamp
  d_used_kw :: real
  d_deliver :: real

record greedy_state =
  load :: "real series"
  chargers :: "int series"
  rows :: "schedule_entry list"
  deliveries :: "delivery list"

record cost_breakdown =
  total_kwh :: real
  peak_kw :: real
  energy_cost :: real
  demand_charge_cost :: real
  total_cost :: real

record savings =
  peak_kw_reduction_pct :: real
  total_cost_savings :: real
  total_cost_savings_pct :: real

datatype py_error = ZeroDivisionError

section \<open>Time grid and tariff\<close>

definition tol :: real where
  "tol = 1 / 1000000"

definition bin_hours :: "int \<Rightarrow> real" where
  "bin_hours bin_minutes = real_of_int bin_minutes / 60"

definition bin_step :: "int \<Rightarrow> int" where
  "bin_step bin_minutes = 60 * bin_minutes"

text \<open>\<open>parse_sessions\<close>, after the timestamps are parsed: rows with an empty window are dropped.\<close>

definition parse_sessions :: "session list \<Rightarrow> session list" where
  "parse_sessions df = filter (\<lambda>s. latest_end s > earliest_start s) df"

text \<open>
  \<open>pd.date_range(start, end, freq, inclusive="left")\<close>: the labels
  \<open>start + k * freq\<close> that are strictly before \<open>end\<close>.
\<close>

definition make_time_index :: "timestamp \<Rightarrow> timestamp \<Rightarrow> int \<Rightarrow> timestamp list" where
  "make_time_index start end bin_minutes =
     map (\<lambda>k. start + int k * bin_step bin_minutes)
       [0 ..< nat ((end - start + bin_step bin_minutes - 1) div bin_step bin_minutes)]"

text \<open>\<open>ts.hour + ts.minute/60.0\<close>: the seconds of the timestamp are not used.\<close>

definition hour_of_day :: "timestamp \<Rightarrow> real" where
  "hour_of_day ts = real_of_int ((ts div 3600) mod 24) + real_of_int ((ts div 60) mod 60) / 60"

definition block_matches :: "real \<Rightarrow> tou_block \<Rightarrow> bool" where
  "block_matches h b = (start_hour b \<le> h \<and> h < end_hour b)"

text \<open>The \<open>for b in tariff.tou_blocks\<close> loop; \<open>None\<close> when it falls through.\<close>

fun scan_blocks :: "real \<Rightarrow> tou_block list \<Rightarrow> real option" where
  "scan_blocks h [] = None"
| "scan_blocks h (b # bs) =
     (if block_matches h b then Some (rate_per_kwh b) else scan_blocks h bs)"

definition tou_rate_for_ts :: "timestamp \<Rightarrow> Tariff \<Rightarrow> real" where
  "tou_rate_for_ts ts tariff =
     (if tou_blocks tariff = [] then flat_energy_rate_per_kwh tariff
      else (case scan_blocks (hour_of_day ts) (tou_blocks tariff) of
              Some r \<Rightarrow> r
            | None \<Rightarrow> flat_energy_rate_per_kwh tariff))"

section \<open>Baseline simulator\<close>

text \<open>
  The \<open>while needed_kwh > 1e-6 and t < end\<close> loop of \<open>baseline_load_curve\<close> for one
  session. It returns the load curve and the energy still needed when the loop exits;
  \<open>None\<close> stands for a loop that does not exit.
\<close>

partial_function (option) baseline_walk ::
  "timestamp list \<Rightarrow> int \<Rightarrow> real \<Rightarrow> timestamp \<Rightarrow> real series \<Rightarrow> real \<Rightarrow> timestamp
    \<Rightarrow> (real series \<times> real) option" where
  "baseline_walk time_index bin_minutes kw end ld needed_kwh t =
     (if needed_kwh > tol \<and> t < end then
        (if t \<in> set time_index then
           (let deliver = min needed_kwh (kw * bin_hours bin_minutes) in
            baseline_walk time_index bin_minutes kw end
              (ld(t := ld t + deliver / bin_hours bin_minutes))
              (needed_kwh - deliver) (t + bin_step bin_minutes))
         else baseline_walk time_index bin_minutes kw end ld needed_kwh (t + bin_step bin_minutes))
      else Some (ld, needed_kwh))"

declare baseline_walk.simps [code]

definition zero_load :: "real series" where
  "zero_load = (\<lambda>_. 0)"

definition baseline_session ::
  "timestamp list \<Rightarrow> int \<Rightarrow> session \<Rightarrow> real series \<Rightarrow> (real series \<times> real) option" where
  "baseline_session time_index bin_minutes s ld =
     baseline_walk time_index bin_minutes (max_kw s) (latest_end s) ld (energy_kwh s)
       (earliest_start s)"

fun baseline_sessions ::
  "timestamp list \<Rightarrow> int \<Rightarrow> session list \<Rightarrow> real series \<Rightarrow> real series option" where
  "baseline_sessions time_index bin_minutes [] ld = Some ld"
| "baseline_sessions time_index bin_minutes (s # ss) ld =
     (case baseline_session time_index bin_minutes s ld of
        None \<Rightarrow> None
      | Some r \<Rightarrow> baseline_sessions time_index bin_minutes ss (fst r))"

definition baseline_load_curve :: "session list \<Rightarrow> timestamp list \<Rightarrow> int \<Rightarrow> real series option" where
  "baseline_load_curve sessions time_index bin_minutes =
     baseline_sessions time_index bin_minutes sessions zero_load"

text \<open>Energy delivered to a session by the baseline: what it asked for minus what is left.\<close>

definition baseline_delivered :: "timestamp list \<Rightarrow> int \<Rightarrow> session \<Rightarrow> real series \<Rightarrow> real option" where
  "baseline_delivered time_index bin_minutes s ld =
     map_option (\<lambda>r. energy_kwh s - snd r) (baseline_session time_index bin_minutes s ld)"

text \<open>Number of points \<open>earliest_start + k * bin\<close> of the walk that are before \<open>latest_end\<close>.\<close>

definition walk_points :: "int \<Rightarrow> session \<Rightarrow> nat" where
  "walk_points bin_minutes s =
     nat ((latest_end s - earliest_start s + bin_step bin_minutes - 1) div bin_step bin_minutes)"

section \<open>Greedy scheduler\<close>

text \<open>Rounding to the nearest whole number, ties to the even one.\<close>

definition round_half_even :: "real \<Rightarrow> int" where
  "round_half_even x =
     (let f = \<lfloor>x\<rfloor>; d = x - of_int f
      in if d < 1 / 2 then f else if d > 1 / 2 then f + 1 else if even f then f else f + 1)"

text \<open>
  The binary64 double next to a real: the magnitude is scaled by powers of two until it
  lies between \<open>2^52\<close> and \<open>2^53\<close> (or the smallest exponent \<open>-1074\<close> is reached, for
  subnormal numbers), rounded to a whole number with ties to even, and scaled back.
  \<open>p\<close> is \<open>2^e\<close>. A double is its own image. Magnitudes from \<open>2^1024\<close> on, where a
  double overflows, are outside the range of this function; the quantities of the
  program are kW and kWh.
\<close>

function up_round :: "real \<Rightarrow> int \<Rightarrow> real \<Rightarrow> real" where
  "up_round m e p =
     (if m < 4503599627370496 \<and> - 1074 < e then up_round (m * 2) (e - 1) (p / 2)
      else real_of_int (round_half_even m) * p)"
  by pat_completeness auto
termination
  by (relation "measure (\<lambda>(m, e, p). nat (e + 1074))") auto

declare up_round.simps [simp del]

function down_round :: "real \<Rightarrow> int \<Rightarrow> real \<Rightarrow> real" where
  "down_round m e p =
     (if 9007199254740992 \<le> m \<and> e < 971 then down_round (m / 2) (e + 1) (p * 2)
      else up_round m e p)"
  by pat_completeness auto
termination
  by (relation "measure (\<lambda>(m, e, p). nat (971 - e))") auto

declare down_round.simps [simp del]

definition to_double :: "real \<Rightarrow> real" where
  "to_double x = (if x = 0 then 0 else sgn x * down_round \<bar>x\<bar> 0 1)"

text \<open>
  \<open>round(float(v), 3)\<close>. Python rounds the exact value of the double correctly to
  three decimals, ties to even. So the result is the thousandth next to the value; when
  the value lies midway between two thousandths, the double decides: a real that is not
  a double stands for the double next to it, as a decimal literal does (\<open>0.0025\<close> is the
  double just above 2.5 thousandths and gives \<open>0.003\<close>), and a double that is itself
  midway goes to the even thousandth (\<open>0.0625\<close> gives \<open>0.062\<close>). The result is kept as the
  thousandth itself.
\<close>

definition py_round3 :: "real \<Rightarrow> real" where
  "py_round3 x =
     (let y = x * 1000; f = \<lfloor>y\<rfloor>; d = y - of_int f
      in real_of_int
           (if d < 1 / 2 then f
            else if d > 1 / 2 then f + 1
            else if x < to_double x then f + 1
            else if to_double x < x then f
            else if even f then f else f + 1) / 1000)"

definition window_bins :: "int \<Rightarrow> session \<Rightarrow> real" where
  "window_bins bin_minutes s =
     max 1 (real_of_int (latest_end s - earliest_start s) / 60 / real_of_int bin_minutes)"

definition tightness :: "int \<Rightarrow> session \<Rightarrow> real" where
  "tightness bin_minutes s =
     energy_kwh s / (max_kw s * window_bins bin_minutes s * bin_hours bin_minutes)"

text \<open>
  \<open>ss.sort_values(["tightness","earliest_start"], ascending=[False,True])\<close>: a stable
  sort on the pair (tightness descending, earliest_start ascending).
\<close>

definition sort_sessions :: "int \<Rightarrow> session list \<Rightarrow> session list" where
  "sort_sessions bin_minutes ss =
     sort_key (\<lambda>s. (- tightness bin_minutes s, earliest_start s)) ss"

text \<open>Modelled after the words of the specification, for comparison with \<open>window_bins\<close>.\<close>

definition spec_window_bins :: "int \<Rightarrow> session \<Rightarrow> real" where
  "spec_window_bins bin_minutes s =
     max 1 (real_of_int \<lceil>real_of_int (latest_end s - earliest_start s) / 60 / real_of_int bin_minutes\<rceil>)"

definition spec_tightness :: "int \<Rightarrow> session \<Rightarrow> real" where
  "spec_tightness bin_minutes s =
     energy_kwh s / (max_kw s * spec_window_bins bin_minutes s * bin_hours bin_minutes)"

text \<open>The inner \<open>for t in bins\<close> loop that collects the feasible triples.\<close>

fun feasible :: "real \<Rightarrow> real \<Rightarrow> int \<Rightarrow> real series \<Rightarrow> int series \<Rightarrow> timestamp list
    \<Rightarrow> (real \<times> real \<times> timestamp) list" where
  "feasible kw cap maxc ld ch [] = []"
| "feasible kw cap maxc ld ch (t # ts) =
     (if ch t \<ge> maxc then feasible kw cap maxc ld ch ts
      else if ld t + kw > cap then feasible kw cap maxc ld ch ts
      else (ld t + kw, ld t, t) # feasible kw cap maxc ld ch ts)"

text \<open>
  \<open>feasible.sort(key=lambda x: (x[0], x[1])); t = feasible[0][2]\<close>, with \<open>None\<close> for
  the \<open>break\<close> on an empty list.
\<close>

definition pick_bin :: "real \<Rightarrow> real \<Rightarrow> int \<Rightarrow> real series \<Rightarrow> int series \<Rightarrow> timestamp list
    \<Rightarrow> timestamp option" where
  "pick_bin kw cap maxc ld ch bins =
     (case sort_key (\<lambda>x. (fst x, fst (snd x))) (feasible kw cap maxc ld ch bins) of
        [] \<Rightarrow> None
      | x # _ \<Rightarrow> Some (snd (snd x)))"

text \<open>Lines 78 to 89: one delivery into bin \<open>t\<close>.\<close>

definition deliver_into ::
  "int \<Rightarrow> session \<Rightarrow> real \<Rightarrow> greedy_state \<Rightarrow> real \<Rightarrow> timestamp \<Rightarrow> greedy_state \<times> real" where
  "deliver_into bin_minutes s kw st needed_kwh t =
     (let deliver = min needed_kwh (kw * bin_hours bin_minutes);
          used_kw = deliver / bin_hours bin_minutes
      in (st\<lparr> load := (load st)(t := load st t + used_kw),
              chargers := (chargers st)(t := chargers st t + 1),
              rows := rows st @
                [\<lparr> row_session_id = session_id s, row_vehicle_id = vehicle_id s,
                   row_bin_start = t, row_kw = py_round3 used_kw, row_kwh = py_round3 deliver \<rparr>],
              deliveries := deliveries st @
                [\<lparr> d_session = s, d_bin = t, d_used_kw = used_kw, d_deliver = deliver \<rparr>] \<rparr>,
          needed_kwh - deliver))"

text \<open>Ghost function: the row that the source appends for a delivery.\<close>

definition row_of :: "delivery \<Rightarrow> schedule_entry" where
  "row_of d =
     \<lparr> row_session_id = session_id (d_session d), row_vehicle_id = vehicle_id (d_session d),
       row_bin_start = d_bin d, row_kw = py_round3 (d_used_kw d),
       row_kwh = py_round3 (d_deliver d) \<rparr>"




text \<open>
  The \<open>while needed_kwh > 1e-6\<close> loop for one session. It returns the state and the
  energy still needed when the loop exits.
\<close>

function greedy_while ::
  "int \<Rightarrow> real \<Rightarrow> int \<Rightarrow> session \<Rightarrow> real \<Rightarrow> greedy_state \<Rightarrow> real \<Rightarrow> timestamp list
    \<Rightarrow> greedy_state \<times> real" where
  "greedy_while bin_minutes cap maxc s kw st needed_kwh bins =
     (if needed_kwh > tol then
        (case pick_bin kw cap maxc (load st) (chargers st) bins of
           None \<Rightarrow> (st, needed_kwh)
         | Some t \<Rightarrow>
             greedy_while bin_minutes cap maxc s kw
               (fst (deliver_into bin_minutes s kw st needed_kwh t))
               (snd (deliver_into bin_minutes s kw st needed_kwh t))
               (remove1 t bins))
      else (st, needed_kwh))"
  by pat_completeness auto
termination
proof (relation "measure (\<lambda>(bin_minutes, cap, maxc, s, kw, st, needed_kwh, bins). length bins)")
  show "wf (measure (\<lambda>(bin_minutes, cap, maxc, s, kw, st, needed_kwh, bins). length bins))"
    by simp
next
  fix bin_minutes :: int and cap :: real and maxc :: int and s :: session and kw :: real
    and st :: greedy_state and needed_kwh :: real and bins :: "timestamp list" and t :: timestamp
  assume pick: "pick_bin kw cap maxc (load st) (chargers st) bins = Some t"
  have sub: "snd (snd x) \<in> set bins"
    if "x \<in> set (feasible kw cap maxc (load st) (chargers st) bins)" for x
    using that by (induction bins) (auto split: if_splits)
  from pick obtain x xs where
    "sort_key (\<lambda>x. (fst x, fst (snd x))) (feasible kw cap maxc (load st) (chargers st) bins) = x # xs"
    and t: "t = snd (snd x)"
    by (auto simp: pick_bin_def split: list.splits)
  then have "x \<in> set (sort_key (\<lambda>x. (fst x, fst (snd x)))
      (feasible kw cap maxc (load st) (chargers st) bins))"
    by simp
  then have "x \<in> set (feasible kw cap maxc (load st) (chargers st) bins)"
    by simp
  with sub t have "t \<in> set bins" by simp
  then have "length (remove1 t bins) < length bins"
    by (simp add: length_remove1) (cases bins; simp)
  then show "((bin_minutes, cap, maxc, s, kw,
               fst (deliver_into bin_minutes s kw st needed_kwh t),
               snd (deliver_into bin_minutes s kw st needed_kwh t), remove1 t bins),
              (bin_minutes, cap, maxc, s, kw, st, needed_kwh, bins))
             \<in> measure (\<lambda>(bin_minutes, cap, maxc, s, kw, st, needed_kwh, bins). length bins)"
    by simp
qed

declare greedy_while.simps [simp del]

text \<open>The body of \<open>for _, s in ss.iterrows()\<close>.\<close>

definition session_bins :: "timestamp list \<Rightarrow> session \<Rightarrow> timestamp list" where
  "session_bins time_index s =
     filter (\<lambda>t. t \<ge> earliest_start s \<and> t < latest_end s) time_index"

definition greedy_session ::
  "timestamp list \<Rightarrow> int \<Rightarrow> real \<Rightarrow> int \<Rightarrow> session \<Rightarrow> greedy_state \<Rightarrow> greedy_state" where
  "greedy_session time_index bin_minutes cap maxc s st =
     (let bins = session_bins time_index s
      in if bins = [] then st
         else fst (greedy_while bin_minutes cap maxc s (max_kw s) st (energy_kwh s) bins))"

fun greedy_sessions ::
  "timestamp list \<Rightarrow> int \<Rightarrow> real \<Rightarrow> int \<Rightarrow> session list \<Rightarrow> greedy_state \<Rightarrow> greedy_state" where
  "greedy_sessions time_index bin_minutes cap maxc [] st = st"
| "greedy_sessions time_index bin_minutes cap maxc (s # ss) st =
     greedy_sessions time_index bin_minutes cap maxc ss
       (greedy_session time_index bin_minutes cap maxc s st)"

definition greedy_init :: greedy_state where
  "greedy_init = \<lparr> load = zero_load, chargers = (\<lambda>_. 0), rows = [], deliveries = [] \<rparr>"

text \<open>The whole run, with the internal charger counts and the ghost deliveries kept.\<close>

definition greedy_run ::
  "session list \<Rightarrow> timestamp list \<Rightarrow> int \<Rightarrow> real \<Rightarrow> int \<Rightarrow> greedy_state" where
  "greedy_run sessions time_index bin_minutes depot_power_cap_kw max_concurrent_chargers =
     greedy_sessions time_index bin_minutes depot_power_cap_kw max_concurrent_chargers
       (sort_sessions bin_minutes sessions) greedy_init"

definition greedy_optimize_schedule ::
  "session list \<Rightarrow> timestamp list \<Rightarrow> int \<Rightarrow> real \<Rightarrow> int \<Rightarrow> schedule_entry list \<times> real series" where
  "greedy_optimize_schedule sessions time_index bin_minutes depot_power_cap_kw max_concurrent_chargers =
     (let st = greedy_run sessions time_index bin_minutes depot_power_cap_kw max_concurrent_chargers
      in (rows st, load st))"

section \<open>Savings\<close>

definition py_div :: "real \<Rightarrow> real \<Rightarrow> py_error + real" where
  "py_div a b = (if b = 0 then Inl ZeroDivisionError else Inr (a / b))"

text \<open>\<open>(1 - c/b) * 100 if b else 0\<close>: a float is true when it is not zero.\<close>

definition pct_against :: "real \<Rightarrow> real \<Rightarrow> py_error + real" where
  "pct_against c b =
     (if b \<noteq> 0 then (case py_div c b of Inl e \<Rightarrow> Inl e | Inr q \<Rightarrow> Inr ((1 - q) * 100))
      else Inr 0)"

definition compute_savings :: "cost_breakdown \<Rightarrow> cost_breakdown \<Rightarrow> py_error + savings" where
  "compute_savings base_costs costs =
     (case pct_against (peak_kw costs) (peak_kw base_costs) of
        Inl e \<Rightarrow> Inl e
      | Inr p \<Rightarrow>
          (case pct_against (total_cost costs) (total_cost base_costs) of
             Inl e \<Rightarrow> Inl e
           | Inr c \<Rightarrow>
               Inr \<lparr> peak_kw_reduction_pct = p,
                     total_cost_savings = total_cost base_costs - total_cost costs,
                     total_cost_savings_pct = c \<rparr>))"

section \<open>Example inputs\<close>

text \<open>Two overlapping time-of-use blocks: the all-day block comes first.\<close>

definition tariff_overlap :: Tariff where
  "tariff_overlap = \<lparr> flat_energy_rate_per_kwh = 5, demand_charge_per_kw = 0,
     tou_blocks = [\<lparr> start_hour = 0, end_hour = 24, rate_per_kwh = 1 \<rparr>,
                   \<lparr> start_hour = 12, end_hour = 14, rate_per_kwh = 2 \<rparr>] \<rparr>"

definition costs_zero :: cost_breakdown where
  "costs_zero = \<lparr> total_kwh = 0, peak_kw = 0, energy_cost = 0, demand_charge_cost = 0, total_cost = 0 \<rparr>"

text \<open>
  The scenario of the specification: 15 minute bins from 18:00 to midnight, session A
  (18:00 to 22:00, 20 kWh, 10 kW) and session B (18:00 to 20:00, 10 kWh, 10 kW).
\<close>

definition demo_grid :: "timestamp list" where
  "demo_grid = make_time_index 64800 86400 15"

definition demo_A :: session where
  "demo_A = \<lparr> session_id = ''A'', vehicle_id = ''VA'', earliest_start = 64800,
     latest_end = 79200, energy_kwh = 20, max_kw = 10 \<rparr>"

definition demo_B :: session where
  "demo_B = \<lparr> session_id = ''B'', vehicle_id = ''VB'', earliest_start = 64800,
     latest_end = 72000, energy_kwh = 10, max_kw = 10 \<rparr>"

text \<open>A session that asks for less than a thousandth of a kWh.\<close>

definition tiny_session :: session where
  "tiny_session = \<lparr> session_id = ''T'', vehicle_id = ''VT'', earliest_start = 0,
     latest_end = 900, energy_kwh = 6 / 10000, max_kw = 10 \<rparr>"

text \<open>
  A session with a window of 20 minutes and one with a window of 30 minutes, for bins of
  15 minutes.
\<close>

definition short_X :: session where
  "short_X = \<lparr> session_id = ''X'', vehicle_id = ''VX'', earliest_start = 0,
     latest_end = 1200, energy_kwh = 28 / 10, max_kw = 10 \<rparr>"

definition long_Y :: session where
  "long_Y = \<lparr> session_id = ''Y'', vehicle_id = ''VY'', earliest_start = 0,
     latest_end = 1800, energy_kwh = 35 / 10, max_kw = 10 \<rparr>"

text \<open>
  A grid of one hour in bins of 15 minutes, a session whose window is the first bin and
  that asks for more than one bin can carry, and a session that starts five minutes
  into the first bin.
\<close>

definition hour_grid :: "timestamp list" where
  "hour_grid = make_time_index 0 3600 15"

definition hungry :: session where
  "hungry = \<lparr> session_id = ''H'', vehicle_id = ''VH'', earliest_start = 0,
     latest_end = 900, energy_kwh = 100, max_kw = 10 \<rparr>"

definition late_Z :: session where
  "late_Z = \<lparr> session_id = ''Z'', vehicle_id = ''VZ'', earliest_start = 300,
     latest_end = 3600, energy_kwh = 1, max_kw = 10 \<rparr>"

section \<open>Tariff: first matching block wins\<close>

lemma scan_blocks_find:
  "scan_blocks h bs = map_option rate_per_kwh (find (block_matches h) bs)"
  by (induction bs) simp_all

text \<open>
  Claim C6. \<open>tou_rate_for_ts\<close> returns the flat rate when no block is configured;
  otherwise the rate of the first block, in configuration order, with
  \<open>start_hour \<le> h < end_hour\<close> for the fractional hour \<open>h\<close> of the timestamp, also
  when later blocks match too; and the flat rate when no block matches.
\<close>

theorem tou_rate_first_match:
  fixes ts :: timestamp and tariff :: Tariff
  defines "h \<equiv> hour_of_day ts" and "bs \<equiv> tou_blocks tariff"
  shows "(bs = [] \<longrightarrow> tou_rate_for_ts ts tariff = flat_energy_rate_per_kwh tariff)
    \<and> (\<forall>i < length bs.
          start_hour (bs ! i) \<le> h \<and> h < end_hour (bs ! i)
          \<and> (\<forall>j < i. \<not> (start_hour (bs ! j) \<le> h \<and> h < end_hour (bs ! j)))
          \<longrightarrow> tou_rate_for_ts ts tariff = rate_per_kwh (bs ! i))
    \<and> ((\<forall>b \<in> set bs. \<not> (start_hour b \<le> h \<and> h < end_hour b))
          \<longrightarrow> tou_rate_for_ts ts tariff = flat_energy_rate_per_kwh tariff)"
proof (intro conjI allI impI)
  assume "bs = []"
  then show "tou_rate_for_ts ts tariff = flat_energy_rate_per_kwh tariff"
    by (simp add: tou_rate_for_ts_def bs_def)
next
  fix i
  assume i: "i < length bs"
    and m: "start_hour (bs ! i) \<le> h \<and> h < end_hour (bs ! i)
      \<and> (\<forall>j < i. \<not> (start_hour (bs ! j) \<le> h \<and> h < end_hour (bs ! j)))"
  then have "find (block_matches h) bs = Some (bs ! i)"
    unfolding find_Some_iff block_matches_def by blast
  moreover from i have "bs \<noteq> []" by auto
  ultimately show "tou_rate_for_ts ts tariff = rate_per_kwh (bs ! i)"
    by (simp add: tou_rate_for_ts_def scan_blocks_find bs_def h_def)
next
  assume "\<forall>b \<in> set bs. \<not> (start_hour b \<le> h \<and> h < end_hour b)"
  then have "find (block_matches h) bs = None"
    unfolding find_None_iff block_matches_def by blast
  then show "tou_rate_for_ts ts tariff = flat_energy_rate_per_kwh tariff"
    by (simp add: tou_rate_for_ts_def scan_blocks_find bs_def h_def)
qed

text \<open>At 13:30 both blocks of \<open>tariff_overlap\<close> match; the first one gives the rate.\<close>

theorem tou_rate_first_match_witness:
  "hour_of_day 48600 = 27 / 2 \<and> tou_rate_for_ts 48600 tariff_overlap = 1"
proof -
  have h: "hour_of_day 48600 = 27 / 2"
    by (simp add: hour_of_day_def)
  have "0 < length (tou_blocks tariff_overlap)
      \<and> start_hour (tou_blocks tariff_overlap ! 0) \<le> hour_of_day 48600
      \<and> hour_of_day 48600 < end_hour (tou_blocks tariff_overlap ! 0)"
    by (simp add: h tariff_overlap_def)
  with tou_rate_first_match [of tariff_overlap 48600] h show ?thesis
    by (auto simp: tariff_overlap_def)
qed

section \<open>Savings: guarded percentages\<close>

text \<open>
  Claim C7. The savings computation never divides by zero: it always returns a value,
  the peak reduction percentage is 0 when the baseline peak is 0, and the cost savings
  percentage is 0 when the baseline total cost is 0.
\<close>

theorem savings_guarded:
  "\<exists>sv. compute_savings base_costs costs = Inr sv
     \<and> (peak_kw base_costs = 0 \<longrightarrow> peak_kw_reduction_pct sv = 0)
     \<and> (total_cost base_costs = 0 \<longrightarrow> total_cost_savings_pct sv = 0)
     \<and> (peak_kw base_costs \<noteq> 0 \<longrightarrow>
          peak_kw_reduction_pct sv = (1 - peak_kw costs / peak_kw base_costs) * 100)
     \<and> (total_cost base_costs \<noteq> 0 \<longrightarrow>
          total_cost_savings_pct sv = (1 - total_cost costs / total_cost base_costs) * 100)"
  by (simp add: compute_savings_def pct_against_def py_div_def)

theorem savings_guarded_witness:
  "peak_kw costs_zero = 0 \<and> total_cost costs_zero = 0
   \<and> (\<exists>sv. compute_savings costs_zero costs_zero = Inr sv
         \<and> peak_kw_reduction_pct sv = 0 \<and> total_cost_savings_pct sv = 0)"
proof -
  have z: "peak_kw costs_zero = 0 \<and> total_cost costs_zero = 0"
    by (simp add: costs_zero_def)
  with savings_guarded [of costs_zero costs_zero] show ?thesis
    by blast
qed

section \<open>Greedy scheduler: invariants of the loops\<close>

lemma bin_hours_pos: "0 < bm \<Longrightarrow> 0 < bin_hours bm"
  by (simp add: bin_hours_def)

lemma py_round3_nearest:
  "\<exists>n::int. py_round3 x = real_of_int n / 1000 \<and> \<bar>real_of_int n - x * 1000\<bar> \<le> 1 / 2"
proof -
  define f where "f = \<lfloor>x * 1000\<rfloor>"
  define d where "d = x * 1000 - real_of_int f"
  have fb: "0 \<le> d" "d < 1"
    unfolding d_def f_def by linarith+
  have r: "py_round3 x = real_of_int
           (if d < 1 / 2 then f
            else if d > 1 / 2 then f + 1
            else if x < to_double x then f + 1
            else if to_double x < x then f
            else if even f then f else f + 1) / 1000"
    by (simp only: py_round3_def Let_def d_def f_def)
  consider "d < 1 / 2" | "1 / 2 < d" | "d = 1 / 2" by linarith
  then show ?thesis
  proof cases
    case 1
    then have "py_round3 x = real_of_int f / 1000" by (simp add: r)
    moreover have "\<bar>real_of_int f - x * 1000\<bar> \<le> 1 / 2"
      using 1 fb by (simp add: d_def)
    ultimately show ?thesis by blast
  next
    case 2
    then have "py_round3 x = real_of_int (f + 1) / 1000" by (simp add: r)
    moreover have "\<bar>real_of_int (f + 1) - x * 1000\<bar> \<le> 1 / 2"
      using 2 fb by (simp add: d_def)
    ultimately show ?thesis by blast
  next
    case 3
    then have "py_round3 x = real_of_int f / 1000 \<or> py_round3 x = real_of_int (f + 1) / 1000"
      by (simp add: r)
    moreover have "\<bar>real_of_int f - x * 1000\<bar> \<le> 1 / 2"
      "\<bar>real_of_int (f + 1) - x * 1000\<bar> \<le> 1 / 2"
      using 3 by (simp_all add: d_def)
    ultimately show ?thesis by blast
  qed
qed

lemma py_round3_error: "\<bar>py_round3 x - x\<bar> \<le> 1 / 2000"
proof -
  from py_round3_nearest [of x] obtain n :: int
    where n: "py_round3 x = real_of_int n / 1000" "\<bar>real_of_int n - x * 1000\<bar> \<le> 1 / 2"
    by blast
  have "\<bar>real_of_int n / 1000 - x\<bar> \<le> 1 / 2000"
    using n(2) by linarith
  then show ?thesis by (simp only: n(1))
qed

lemma feasible_sound:
  "x \<in> set (feasible kw cap maxc ld ch bins) \<Longrightarrow>
     snd (snd x) \<in> set bins \<and> ch (snd (snd x)) < maxc \<and> ld (snd (snd x)) + kw \<le> cap"
  by (induction bins) (auto split: if_splits)

lemma pick_bin_Some:
  assumes "pick_bin kw cap maxc ld ch bins = Some t"
  shows "t \<in> set bins \<and> ch t < maxc \<and> ld t + kw \<le> cap"
proof -
  from assms obtain x xs where
    srt: "sort_key (\<lambda>x. (fst x, fst (snd x))) (feasible kw cap maxc ld ch bins) = x # xs"
    and t: "t = snd (snd x)"
    by (auto simp: pick_bin_def split: list.splits)
  have "x \<in> set (sort_key (\<lambda>x. (fst x, fst (snd x))) (feasible kw cap maxc ld ch bins))"
    by (simp add: srt)
  then have "x \<in> set (feasible kw cap maxc ld ch bins)"
    by simp
  with feasible_sound t show ?thesis by blast
qed

lemma deliver_into_load:
  "load (fst (deliver_into bm s kw st n t)) =
     (load st)(t := load st t + min n (kw * bin_hours bm) / bin_hours bm)"
  by (simp add: deliver_into_def Let_def)

lemma deliver_into_chargers:
  "chargers (fst (deliver_into bm s kw st n t)) = (chargers st)(t := chargers st t + 1)"
  by (simp add: deliver_into_def Let_def)

lemma deliver_into_rows:
  "rows (fst (deliver_into bm s kw st n t)) =
     rows st @ [row_of \<lparr> d_session = s, d_bin = t,
       d_used_kw = min n (kw * bin_hours bm) / bin_hours bm,
       d_deliver = min n (kw * bin_hours bm) \<rparr>]"
  by (simp add: deliver_into_def Let_def row_of_def)

lemma deliver_into_deliveries:
  "deliveries (fst (deliver_into bm s kw st n t)) =
     deliveries st @ [\<lparr> d_session = s, d_bin = t,
       d_used_kw = min n (kw * bin_hours bm) / bin_hours bm,
       d_deliver = min n (kw * bin_hours bm) \<rparr>]"
  by (simp add: deliver_into_def Let_def)

lemma deliver_into_needed:
  "snd (deliver_into bm s kw st n t) = n - min n (kw * bin_hours bm)"
  by (simp add: deliver_into_def Let_def)

lemmas deliver_into_simps =
  deliver_into_load deliver_into_chargers deliver_into_rows deliver_into_deliveries
  deliver_into_needed

lemma used_kw_le:
  assumes "0 < bm"
  shows "min n (kw * bin_hours bm) / bin_hours bm \<le> kw"
proof -
  have pos: "0 < bin_hours bm" using assms by (rule bin_hours_pos)
  have "min n (kw * bin_hours bm) \<le> kw * bin_hours bm" by simp
  with pos show ?thesis by (simp only: pos_divide_le_eq)
qed

text \<open>Invariant rule for the loop of one session.\<close>

lemma greedy_while_rule:
  assumes init: "P st needed bins"
    and step: "\<And>st needed bins t. P st needed bins \<Longrightarrow> tol < needed \<Longrightarrow>
      pick_bin kw cap maxc (load st) (chargers st) bins = Some t \<Longrightarrow>
      P (fst (deliver_into bm s kw st needed t)) (snd (deliver_into bm s kw st needed t))
        (remove1 t bins)"
  shows "\<exists>bins'. P (fst (greedy_while bm cap maxc s kw st needed bins))
                   (snd (greedy_while bm cap maxc s kw st needed bins)) bins'"
  using init
proof (induction "length bins" arbitrary: st needed bins rule: less_induct)
  case less
  show ?case
  proof (cases "tol < needed")
    case False
    then have "greedy_while bm cap maxc s kw st needed bins = (st, needed)"
      by (subst greedy_while.simps) simp
    with less.prems show ?thesis by auto
  next
    case True
    show ?thesis
    proof (cases "pick_bin kw cap maxc (load st) (chargers st) bins")
      case None
      with True have "greedy_while bm cap maxc s kw st needed bins = (st, needed)"
        by (subst greedy_while.simps) simp
      with less.prems show ?thesis by auto
    next
      case (Some t)
      with True have unf: "greedy_while bm cap maxc s kw st needed bins =
          greedy_while bm cap maxc s kw (fst (deliver_into bm s kw st needed t))
            (snd (deliver_into bm s kw st needed t)) (remove1 t bins)"
        by (subst greedy_while.simps) simp
      from Some have "t \<in> set bins" using pick_bin_Some by blast
      then have "length (remove1 t bins) < length bins"
        by (simp add: length_remove1) (cases bins; simp)
      moreover have "P (fst (deliver_into bm s kw st needed t))
          (snd (deliver_into bm s kw st needed t)) (remove1 t bins)"
        using less.prems True Some by (rule step)
      ultimately show ?thesis
        unfolding unf by (rule less.hyps)
    qed
  qed
qed

lemma greedy_sessions_rule:
  assumes "Q st"
    and "\<And>s st. Q st \<Longrightarrow> Q (greedy_session idx bm cap maxc s st)"
  shows "Q (greedy_sessions idx bm cap maxc ss st)"
  using assms(1)
  by (induction ss arbitrary: st) (simp_all add: assms(2))

lemma greedy_session_rule:
  assumes "Q st"
    and "\<And>st needed t. Q st \<Longrightarrow> tol < needed \<Longrightarrow> t \<in> set idx \<Longrightarrow>
      chargers st t < maxc \<Longrightarrow> load st t + max_kw s \<le> cap \<Longrightarrow>
      Q (fst (deliver_into bm s (max_kw s) st needed t))"
  shows "Q (greedy_session idx bm cap maxc s st)"
proof (cases "session_bins idx s = []")
  case True
  with assms(1) show ?thesis by (simp add: greedy_session_def)
next
  case False
  have "\<exists>bins'. (\<lambda>st needed bins. Q st \<and> set bins \<subseteq> set idx)
      (fst (greedy_while bm cap maxc s (max_kw s) st (energy_kwh s) (session_bins idx s)))
      (snd (greedy_while bm cap maxc s (max_kw s) st (energy_kwh s) (session_bins idx s))) bins'"
  proof (rule greedy_while_rule)
    show "Q st \<and> set (session_bins idx s) \<subseteq> set idx"
      using assms(1) by (auto simp: session_bins_def)
  next
    fix st' needed bins t
    assume inv: "Q st' \<and> set bins \<subseteq> set idx" and n: "tol < needed"
      and pk: "pick_bin (max_kw s) cap maxc (load st') (chargers st') bins = Some t"
    from pick_bin_Some [OF pk] inv have "t \<in> set idx" "chargers st' t < maxc"
      "load st' t + max_kw s \<le> cap" by auto
    with inv n have "Q (fst (deliver_into bm s (max_kw s) st' needed t))"
      by (auto intro: assms(2))
    moreover have "set (remove1 t bins) \<subseteq> set idx"
      using inv set_remove1_subset by fastforce
    ultimately show "Q (fst (deliver_into bm s (max_kw s) st' needed t))
        \<and> set (remove1 t bins) \<subseteq> set idx" by simp
  qed
  with False show ?thesis by (simp add: greedy_session_def)
qed

lemma greedy_run_rule:
  assumes init: "Q greedy_init"
    and step: "\<And>s st needed t. Q st \<Longrightarrow> tol < needed \<Longrightarrow> t \<in> set idx \<Longrightarrow>
      chargers st t < maxc \<Longrightarrow> load st t + max_kw s \<le> cap \<Longrightarrow>
      Q (fst (deliver_into bm s (max_kw s) st needed t))"
  shows "Q (greedy_run ss idx bm cap maxc)"
proof -
  have "Q (greedy_session idx bm cap maxc s st)" if "Q st" for s st
    using that step by (rule greedy_session_rule)
  with init show ?thesis
    unfolding greedy_run_def by (rule greedy_sessions_rule)
qed

lemma greedy_run_accounted:
  "rows (greedy_run ss idx bm cap maxc) = map row_of (deliveries (greedy_run ss idx bm cap maxc))
    \<and> (\<forall>t. load (greedy_run ss idx bm cap maxc) t
          = sum_list (map d_used_kw
              (filter (\<lambda>d. d_bin d = t) (deliveries (greedy_run ss idx bm cap maxc)))))
    \<and> (\<forall>t. chargers (greedy_run ss idx bm cap maxc) t
          = int (length (filter (\<lambda>d. d_bin d = t) (deliveries (greedy_run ss idx bm cap maxc)))))"
proof -
  have "(\<lambda>st. rows st = map row_of (deliveries st)
      \<and> (\<forall>t. load st t = sum_list (map d_used_kw (filter (\<lambda>d. d_bin d = t) (deliveries st))))
      \<and> (\<forall>t. chargers st t = int (length (filter (\<lambda>d. d_bin d = t) (deliveries st)))))
    (greedy_run ss idx bm cap maxc)"
  proof (rule greedy_run_rule)
    show "rows greedy_init = map row_of (deliveries greedy_init)
      \<and> (\<forall>t. load greedy_init t
            = sum_list (map d_used_kw (filter (\<lambda>d. d_bin d = t) (deliveries greedy_init))))
      \<and> (\<forall>t. chargers greedy_init t
            = int (length (filter (\<lambda>d. d_bin d = t) (deliveries greedy_init))))"
      by (simp add: greedy_init_def zero_load_def)
  next
    fix s :: session and st :: greedy_state and needed :: real and t :: timestamp
    assume "rows st = map row_of (deliveries st)
      \<and> (\<forall>t. load st t = sum_list (map d_used_kw (filter (\<lambda>d. d_bin d = t) (deliveries st))))
      \<and> (\<forall>t. chargers st t = int (length (filter (\<lambda>d. d_bin d = t) (deliveries st))))"
    then show "rows (fst (deliver_into bm s (max_kw s) st needed t))
        = map row_of (deliveries (fst (deliver_into bm s (max_kw s) st needed t)))
      \<and> (\<forall>t'. load (fst (deliver_into bm s (max_kw s) st needed t)) t'
            = sum_list (map d_used_kw (filter (\<lambda>d. d_bin d = t')
                (deliveries (fst (deliver_into bm s (max_kw s) st needed t))))))
      \<and> (\<forall>t'. chargers (fst (deliver_into bm s (max_kw s) st needed t)) t'
            = int (length (filter (\<lambda>d. d_bin d = t')
                (deliveries (fst (deliver_into bm s (max_kw s) st needed t))))))"
      by (simp add: deliver_into_simps)
  qed
  then show ?thesis by simp
qed


lemma greedy_while_rule0:
  assumes init: "P st needed"
    and step: "\<And>st needed bins t. P st needed \<Longrightarrow> tol < needed \<Longrightarrow>
      pick_bin kw cap maxc (load st) (chargers st) bins = Some t \<Longrightarrow>
      P (fst (deliver_into bm s kw st needed t)) (snd (deliver_into bm s kw st needed t))"
  shows "P (fst (greedy_while bm cap maxc s kw st needed bins))
           (snd (greedy_while bm cap maxc s kw st needed bins))"
proof -
  have "\<exists>bins' :: timestamp list. P (fst (greedy_while bm cap maxc s kw st needed bins))
           (snd (greedy_while bm cap maxc s kw st needed bins))"
    using init
    by (rule greedy_while_rule [where P = "\<lambda>st' n' bins'. P st' n'"]) (rule step)
  then show ?thesis by simp
qed

lemma greedy_while_needed:
  "snd (greedy_while bm cap maxc s kw st needed bins)
     = needed - (sum_list (map d_deliver (deliveries (fst (greedy_while bm cap maxc s kw st needed bins))))
                 - sum_list (map d_deliver (deliveries st)))"
  by (rule greedy_while_rule0 [where P = "\<lambda>st' n'.
          n' = needed - (sum_list (map d_deliver (deliveries st'))
                         - sum_list (map d_deliver (deliveries st)))"])
     (simp_all add: deliver_into_simps)

lemma greedy_while_needed_nonneg:
  assumes "0 \<le> needed"
  shows "0 \<le> snd (greedy_while bm cap maxc s kw st needed bins)"
  using assms
  by (rule greedy_while_rule0 [where P = "\<lambda>st' n'. 0 \<le> n'"])
     (simp add: deliver_into_simps)



text \<open>
  Claim C1. In the result of \<open>greedy_optimize_schedule\<close>, at every bin of the time
  grid the charger count is at most \<open>max_concurrent_chargers\<close> and the load is at most
  \<open>depot_power_cap_kw\<close>. The configuration is the one the callers supply: a positive
  bin width, a cap and a charger limit that are not negative. In exact arithmetic no
  tolerance is needed.
\<close>

theorem greedy_respects_constraints:
  assumes "0 < bm" and "0 \<le> cap" and "0 \<le> maxc"
  shows "\<forall>t \<in> set idx.
           chargers (greedy_run ss idx bm cap maxc) t \<le> maxc
         \<and> snd (greedy_optimize_schedule ss idx bm cap maxc) t \<le> cap"
proof -
  have "(\<lambda>st. \<forall>t. chargers st t \<le> maxc \<and> load st t \<le> cap) (greedy_run ss idx bm cap maxc)"
  proof (rule greedy_run_rule)
    show "\<forall>t. chargers greedy_init t \<le> maxc \<and> load greedy_init t \<le> cap"
      using assms by (simp add: greedy_init_def zero_load_def)
  next
    fix s :: session and st :: greedy_state and needed :: real and t :: timestamp
    assume inv: "\<forall>t. chargers st t \<le> maxc \<and> load st t \<le> cap"
      and ch: "chargers st t < maxc" and ld: "load st t + max_kw s \<le> cap"
    have "min needed (max_kw s * bin_hours bm) / bin_hours bm \<le> max_kw s"
      using assms(1) by (rule used_kw_le)
    with inv ch ld
    show "\<forall>t'. chargers (fst (deliver_into bm s (max_kw s) st needed t)) t' \<le> maxc
        \<and> load (fst (deliver_into bm s (max_kw s) st needed t)) t' \<le> cap"
      by (auto simp: deliver_into_simps)
  qed
  then show ?thesis
    by (simp add: greedy_optimize_schedule_def Let_def)
qed

theorem greedy_respects_constraints_witness:
  "(0::int) < 15 \<and> (0::real) \<le> 10 \<and> (0::int) \<le> 1 \<and> 64800 \<in> set demo_grid
   \<and> chargers (greedy_run [demo_A, demo_B] demo_grid 15 10 1) 64800 \<le> 1
   \<and> snd (greedy_optimize_schedule [demo_A, demo_B] demo_grid 15 10 1) 64800 \<le> 10"
proof -
  have g: "64800 \<in> set demo_grid" by code_simp
  with greedy_respects_constraints [of 15 10 1 demo_grid "[demo_A, demo_B]"] show ?thesis
    by simp
qed

text \<open>
  Claim C9. At the end of \<open>greedy_optimize_schedule\<close> the returned load at a bin is
  the sum of the exact delivered kW of the schedule entries of that bin, and the charger
  count at the bin is the number of these entries. The entries are the rounded images
  (\<open>row_of\<close>) of the deliveries, in the same order.
\<close>

theorem greedy_load_accounts_for_deliveries:
  "rows (greedy_run ss idx bm cap maxc) = map row_of (deliveries (greedy_run ss idx bm cap maxc))
    \<and> snd (greedy_optimize_schedule ss idx bm cap maxc) t
        = sum_list (map d_used_kw
            (filter (\<lambda>d. d_bin d = t) (deliveries (greedy_run ss idx bm cap maxc))))
    \<and> chargers (greedy_run ss idx bm cap maxc) t
        = int (length (filter (\<lambda>r. row_bin_start r = t) (rows (greedy_run ss idx bm cap maxc))))"
proof -
  have "length (filter (\<lambda>r. row_bin_start r = t) (map row_of ds))
      = length (filter (\<lambda>d. d_bin d = t) ds)" for ds
    by (induction ds) (simp_all add: row_of_def)
  with greedy_run_accounted [of ss idx bm cap maxc] show ?thesis
    by (simp add: greedy_optimize_schedule_def Let_def)
qed

theorem greedy_load_accounts_for_deliveries_witness:
  "snd (greedy_optimize_schedule [demo_A, demo_B] demo_grid 15 10 1) 64800
     = sum_list (map d_used_kw (filter (\<lambda>d. d_bin d = 64800)
         (deliveries (greedy_run [demo_A, demo_B] demo_grid 15 10 1))))
   \<and> chargers (greedy_run [demo_A, demo_B] demo_grid 15 10 1) 64800
     = int (length (filter (\<lambda>r. row_bin_start r = 64800)
         (rows (greedy_run [demo_A, demo_B] demo_grid 15 10 1))))"
  using greedy_load_accounts_for_deliveries [of "[demo_A, demo_B]" demo_grid 15 10 1 64800]
  by simp




section \<open>Greedy scheduler: delivered energy\<close>

lemma sum_rounded_le:
  "sum_list (map (\<lambda>d. py_round3 (f d)) ds) \<le> sum_list (map f ds) + real (length ds) / 2000"
proof (induction ds)
  case Nil
  then show ?case by simp
next
  case (Cons d ds)
  have "py_round3 (f d) \<le> f d + 1 / 2000"
    using py_round3_error [of "f d"] by linarith
  with Cons show ?case by (simp add: add_divide_distrib)
qed

lemma greedy_session_delivered:
  assumes "0 \<le> energy_kwh s"
  shows "sum_list (map d_deliver (deliveries (greedy_session idx bm cap maxc s st)))
           \<le> sum_list (map d_deliver (deliveries st)) + energy_kwh s"
proof (cases "session_bins idx s = []")
  case True
  with assms show ?thesis by (simp add: greedy_session_def)
next
  case False
  have "0 \<le> snd (greedy_while bm cap maxc s (max_kw s) st (energy_kwh s) (session_bins idx s))"
    using assms by (rule greedy_while_needed_nonneg)
  with greedy_while_needed [of bm cap maxc s "max_kw s" st "energy_kwh s" "session_bins idx s"]
    False
  show ?thesis by (simp add: greedy_session_def)
qed

lemma greedy_sessions_delivered:
  assumes "\<forall>s \<in> set ss. 0 \<le> energy_kwh s"
  shows "sum_list (map d_deliver (deliveries (greedy_sessions idx bm cap maxc ss st)))
           \<le> sum_list (map d_deliver (deliveries st)) + sum_list (map energy_kwh ss)"
  using assms
proof (induction ss arbitrary: st)
  case Nil
  then show ?case by simp
next
  case (Cons s ss)
  have "sum_list (map d_deliver (deliveries (greedy_sessions idx bm cap maxc ss
          (greedy_session idx bm cap maxc s st))))
      \<le> sum_list (map d_deliver (deliveries (greedy_session idx bm cap maxc s st)))
          + sum_list (map energy_kwh ss)"
    using Cons.prems by (intro Cons.IH) simp
  moreover have "sum_list (map d_deliver (deliveries (greedy_session idx bm cap maxc s st)))
      \<le> sum_list (map d_deliver (deliveries st)) + energy_kwh s"
    using Cons.prems by (intro greedy_session_delivered) simp
  ultimately show ?case by simp
qed

lemma sum_list_sort_sessions:
  fixes f :: "session \<Rightarrow> real"
  shows "sum_list (map f (sort_sessions bm ss)) = sum_list (map f ss)"
proof -
  have "mset (map f (sort_sessions bm ss)) = mset (map f ss)"
    by (simp add: sort_sessions_def)
  then have "sum_mset (mset (map f (sort_sessions bm ss))) = sum_mset (mset (map f ss))"
    by (rule arg_cong)
  then show ?thesis by (simp only: sum_mset_sum_list)
qed

lemma tiny_rows:
  "map row_kwh (fst (greedy_optimize_schedule [tiny_session] [0] 15 10 1)) = [1 / 1000]"
  by code_simp

text \<open>
  Claim C4, as stated, sums the \<open>kwh\<close> column of the returned schedule. That column is
  rounded to three decimals, and rounding up can exceed the request: a session asking
  for 0.0006 kWh gets one row with \<open>kwh = 0.001\<close>.
\<close>

theorem rounded_schedule_exceeds_requested_counterexample:
  "\<not> sum_list (map row_kwh (fst (greedy_optimize_schedule [tiny_session] [0] 15 10 1)))
       \<le> sum_list (map energy_kwh [tiny_session])"
proof -
  have "sum_list (map row_kwh (fst (greedy_optimize_schedule [tiny_session] [0] 15 10 1)))
      = 1 / 1000"
    by (simp only: tiny_rows) simp
  moreover have "sum_list (map energy_kwh [tiny_session]) = 6 / 10000"
    by (simp add: tiny_session_def)
  ultimately show ?thesis by simp
qed

text \<open>
  Claim C4, amended. For sessions with \<open>energy_kwh \<ge> 0\<close>, the exact (pre-rounding)
  delivered kWh of a run sum to at most the sum of \<open>energy_kwh\<close>; the rounded \<open>kwh\<close>
  column sums to at most that plus 0.0005 per row.
\<close>

theorem greedy_exact_delivered_le_requested:
  assumes "\<forall>s \<in> set ss. 0 \<le> energy_kwh s"
  shows "sum_list (map d_deliver (deliveries (greedy_run ss idx bm cap maxc)))
           \<le> sum_list (map energy_kwh ss)
    \<and> sum_list (map row_kwh (fst (greedy_optimize_schedule ss idx bm cap maxc)))
           \<le> sum_list (map energy_kwh ss)
              + real (length (fst (greedy_optimize_schedule ss idx bm cap maxc))) / 2000"
proof -
  have "\<forall>s \<in> set (sort_sessions bm ss). 0 \<le> energy_kwh s"
    using assms by (simp add: sort_sessions_def)
  then have "sum_list (map d_deliver (deliveries (greedy_run ss idx bm cap maxc)))
      \<le> sum_list (map d_deliver (deliveries greedy_init))
         + sum_list (map energy_kwh (sort_sessions bm ss))"
    unfolding greedy_run_def by (rule greedy_sessions_delivered)
  then have exact: "sum_list (map d_deliver (deliveries (greedy_run ss idx bm cap maxc)))
      \<le> sum_list (map energy_kwh ss)"
    by (simp add: sum_list_sort_sessions greedy_init_def)
  have rows: "rows (greedy_run ss idx bm cap maxc)
      = map row_of (deliveries (greedy_run ss idx bm cap maxc))"
    using greedy_run_accounted by blast
  have "sum_list (map row_kwh (rows (greedy_run ss idx bm cap maxc)))
      = sum_list (map (\<lambda>d. py_round3 (d_deliver d)) (deliveries (greedy_run ss idx bm cap maxc)))"
    by (simp add: rows row_of_def comp_def)
  also have "\<dots> \<le> sum_list (map d_deliver (deliveries (greedy_run ss idx bm cap maxc)))
      + real (length (deliveries (greedy_run ss idx bm cap maxc))) / 2000"
    by (rule sum_rounded_le)
  finally have "sum_list (map row_kwh (rows (greedy_run ss idx bm cap maxc)))
      \<le> sum_list (map energy_kwh ss)
        + real (length (rows (greedy_run ss idx bm cap maxc))) / 2000"
    using exact by (simp add: rows)
  with exact show ?thesis
    by (simp add: greedy_optimize_schedule_def Let_def)
qed

theorem greedy_exact_delivered_le_requested_witness:
  "0 \<le> energy_kwh demo_A \<and> 0 \<le> energy_kwh demo_B
   \<and> sum_list (map d_deliver (deliveries (greedy_run [demo_A, demo_B] demo_grid 15 10 1)))
        \<le> sum_list (map energy_kwh [demo_A, demo_B])"
proof -
  have h: "\<forall>s \<in> set [demo_A, demo_B]. 0 \<le> energy_kwh s"
    by (simp add: demo_A_def demo_B_def)
  with greedy_exact_delivered_le_requested [OF h, of demo_grid 15 10 1] show ?thesis
    by simp
qed

section \<open>Greedy scheduler: one row per session and bin\<close>

lemma greedy_while_new_deliveries:
  assumes "distinct bins"
  shows "\<exists>ds. deliveries (fst (greedy_while bm cap maxc s kw st needed bins)) = deliveries st @ ds
    \<and> (\<forall>d \<in> set ds. d_session d = s) \<and> distinct (map d_bin ds)"
proof -
  have "\<exists>bins'. distinct bins'
      \<and> (\<exists>ds. deliveries (fst (greedy_while bm cap maxc s kw st needed bins)) = deliveries st @ ds
            \<and> (\<forall>d \<in> set ds. d_session d = s) \<and> distinct (map d_bin ds)
            \<and> d_bin ` set ds \<inter> set bins' = {})"
  proof (rule greedy_while_rule [where P = "\<lambda>st' n' bins'. distinct bins'
      \<and> (\<exists>ds. deliveries st' = deliveries st @ ds
            \<and> (\<forall>d \<in> set ds. d_session d = s) \<and> distinct (map d_bin ds)
            \<and> d_bin ` set ds \<inter> set bins' = {})"])
    show "distinct bins
      \<and> (\<exists>ds. deliveries st = deliveries st @ ds
            \<and> (\<forall>d \<in> set ds. d_session d = s) \<and> distinct (map d_bin ds)
            \<and> d_bin ` set ds \<inter> set bins = {})"
      using assms by simp
  next
    fix st' :: greedy_state and n' :: real and bins' :: "timestamp list" and t :: timestamp
    assume inv: "distinct bins'
      \<and> (\<exists>ds. deliveries st' = deliveries st @ ds
            \<and> (\<forall>d \<in> set ds. d_session d = s) \<and> distinct (map d_bin ds)
            \<and> d_bin ` set ds \<inter> set bins' = {})"
      and pk: "pick_bin kw cap maxc (load st') (chargers st') bins' = Some t"
    from inv obtain ds where ds: "deliveries st' = deliveries st @ ds"
      "\<forall>d \<in> set ds. d_session d = s" "distinct (map d_bin ds)"
      "d_bin ` set ds \<inter> set bins' = {}" and dist: "distinct bins'"
      by blast
    from pk have tin: "t \<in> set bins'" using pick_bin_Some by blast
    let ?d = "\<lparr> d_session = s, d_bin = t,
       d_used_kw = min n' (kw * bin_hours bm) / bin_hours bm,
       d_deliver = min n' (kw * bin_hours bm) \<rparr>"
    have "deliveries (fst (deliver_into bm s kw st' n' t)) = deliveries st @ (ds @ [?d])"
      by (simp add: deliver_into_simps ds(1))
    moreover have "\<forall>d \<in> set (ds @ [?d]). d_session d = s"
      using ds(2) by simp
    moreover have "distinct (map d_bin (ds @ [?d]))"
      using ds(3,4) tin by auto
    moreover have "d_bin ` set (ds @ [?d]) \<inter> set (remove1 t bins') = {}"
      using ds(4) dist by (auto simp: set_remove1_eq)
    moreover have "distinct (remove1 t bins')"
      using dist by simp
    ultimately show "distinct (remove1 t bins')
      \<and> (\<exists>ds. deliveries (fst (deliver_into bm s kw st' n' t)) = deliveries st @ ds
            \<and> (\<forall>d \<in> set ds. d_session d = s) \<and> distinct (map d_bin ds)
            \<and> d_bin ` set ds \<inter> set (remove1 t bins') = {})"
      by blast
  qed
  then show ?thesis by blast
qed

lemma greedy_session_new_deliveries:
  assumes "distinct idx"
  shows "\<exists>ds. deliveries (greedy_session idx bm cap maxc s st) = deliveries st @ ds
    \<and> (\<forall>d \<in> set ds. d_session d = s) \<and> distinct (map d_bin ds)"
proof (cases "session_bins idx s = []")
  case True
  then show ?thesis by (simp add: greedy_session_def)
next
  case False
  have "distinct (session_bins idx s)"
    using assms by (simp add: session_bins_def)
  from greedy_while_new_deliveries [OF this, of bm cap maxc s "max_kw s" st "energy_kwh s"]
    False
  show ?thesis by (simp add: greedy_session_def)
qed

lemma greedy_sessions_distinct_keys:
  assumes "distinct idx" and "distinct (map session_id ss)"
    and "\<forall>d \<in> set (deliveries st). session_id (d_session d) \<notin> session_id ` set ss"
    and "distinct (map (\<lambda>d. (session_id (d_session d), d_bin d)) (deliveries st))"
  shows "distinct (map (\<lambda>d. (session_id (d_session d), d_bin d))
           (deliveries (greedy_sessions idx bm cap maxc ss st)))"
  using assms(2-)
proof (induction ss arbitrary: st)
  case Nil
  then show ?case by simp
next
  case (Cons s ss)
  obtain ds where ds: "deliveries (greedy_session idx bm cap maxc s st) = deliveries st @ ds"
    "\<forall>d \<in> set ds. d_session d = s" "distinct (map d_bin ds)"
    using greedy_session_new_deliveries [OF assms(1)] by blast
  have new: "map (\<lambda>d. (session_id (d_session d), d_bin d)) ds
      = map (\<lambda>d. (session_id s, d_bin d)) ds"
    using ds(2) by simp
  have "distinct (map (\<lambda>d. (session_id s, d_bin d)) ds)"
    using ds(3) by (simp add: distinct_map inj_on_def)
  then have dnew: "distinct (map (\<lambda>d. (session_id (d_session d), d_bin d)) ds)"
    by (simp only: new)
  have disj: "set (map (\<lambda>d. (session_id (d_session d), d_bin d)) (deliveries st))
      \<inter> set (map (\<lambda>d. (session_id (d_session d), d_bin d)) ds) = {}"
    using Cons.prems(2) ds(2) by auto
  have a: "distinct (map (\<lambda>d. (session_id (d_session d), d_bin d))
      (deliveries (greedy_session idx bm cap maxc s st)))"
    using Cons.prems(3) dnew disj by (simp add: ds(1))
  have b: "\<forall>d \<in> set (deliveries (greedy_session idx bm cap maxc s st)).
      session_id (d_session d) \<notin> session_id ` set ss"
    using Cons.prems(1,2) ds(2) by (auto simp: ds(1))
  have c: "distinct (map session_id ss)"
    using Cons.prems(1) by simp
  show ?case
    using Cons.IH [OF c b a] by simp
qed

lemma demo_grid_eval:
  "demo_grid = [64800, 65700, 66600, 67500, 68400, 69300, 70200, 71100, 72000, 72900,
     73800, 74700, 75600, 76500, 77400, 78300, 79200, 80100, 81000, 81900, 82800, 83700,
     84600, 85500]"
  by code_simp

text \<open>
  Claim C5. In the schedule returned by \<open>greedy_optimize_schedule\<close> no two rows have
  the same session and the same \<open>bin_start\<close>. A session is identified by its
  \<open>session_id\<close>, and the labels of the time index are pairwise different.
\<close>

theorem greedy_one_row_per_session_bin:
  assumes "distinct idx" and "distinct (map session_id ss)"
  shows "distinct (map (\<lambda>r. (row_session_id r, row_bin_start r))
           (fst (greedy_optimize_schedule ss idx bm cap maxc)))"
proof -
  have "distinct (map session_id (sort_sessions bm ss))"
    using assms(2) by (simp add: sort_sessions_def distinct_map)
  then have "distinct (map (\<lambda>d. (session_id (d_session d), d_bin d))
      (deliveries (greedy_run ss idx bm cap maxc)))"
    unfolding greedy_run_def
    by (intro greedy_sessions_distinct_keys assms(1)) (simp_all add: greedy_init_def)
  moreover have "rows (greedy_run ss idx bm cap maxc)
      = map row_of (deliveries (greedy_run ss idx bm cap maxc))"
    using greedy_run_accounted by blast
  ultimately show ?thesis
    by (simp add: greedy_optimize_schedule_def Let_def comp_def row_of_def)
qed

theorem greedy_one_row_per_session_bin_witness:
  "distinct demo_grid \<and> distinct (map session_id [demo_A, demo_B])
   \<and> distinct (map (\<lambda>r. (row_session_id r, row_bin_start r))
        (fst (greedy_optimize_schedule [demo_A, demo_B] demo_grid 15 10 1)))"
proof -
  have g: "distinct demo_grid" by (simp add: demo_grid_eval)
  have i: "distinct (map session_id [demo_A, demo_B])"
    by (simp add: demo_A_def demo_B_def)
  from g i greedy_one_row_per_session_bin [OF g i, of 15 10 1] show ?thesis by blast
qed

section \<open>Greedy scheduler: priority order\<close>

lemma sort_sessions_sorted:
  "sorted_wrt (\<lambda>a b. tightness bm b < tightness bm a
        \<or> (tightness bm a = tightness bm b \<and> earliest_start a \<le> earliest_start b))
     (sort_sessions bm ss)"
proof -
  have "sorted (map (\<lambda>s. (- tightness bm s, earliest_start s)) (sort_sessions bm ss))"
    unfolding sort_sessions_def by (rule sorted_sort_key)
  then have "sorted_wrt (\<lambda>a b. (- tightness bm a, earliest_start a)
        \<le> (- tightness bm b, earliest_start b)) (sort_sessions bm ss)"
    by (simp add: sorted_wrt_map)
  then show ?thesis
    by (rule sorted_wrt_mono_rel [rotated]) (auto simp: less_eq_prod_def)
qed

text \<open>
  Claim C2, as stated, takes \<open>window_bins\<close> as a ceiling. The code divides the window
  by the bin width and clips at 1, without rounding up: a window of 20 minutes has
  4/3 bins of 15 minutes, not 2. The tightness differs, and so can the order: the code
  processes X (tightness 0.84) before Y (0.7), while with the ceiling X would have
  tightness 0.56 and come after Y.
\<close>

theorem window_bins_not_ceiling_counterexample:
  "window_bins 15 short_X = 4 / 3 \<and> spec_window_bins 15 short_X = 2
   \<and> tightness 15 short_X \<noteq> spec_tightness 15 short_X
   \<and> map session_id (sort_sessions 15 [long_Y, short_X]) = [''X'', ''Y'']
   \<and> spec_tightness 15 short_X < spec_tightness 15 long_Y"
  by code_simp

text \<open>
  Claim C2, amended. \<open>window_bins = max(1, (latest_end - earliest_start) / bin_width)\<close>,
  a fraction, not rounded up; \<open>tightness = energy_kwh / (max_kw * window_bins * bin_hours)\<close>;
  the sessions are processed in a permutation of the input that is sorted by tightness
  descending, ties by \<open>earliest_start\<close> ascending.
\<close>

theorem greedy_processing_order:
  "mset (sort_sessions bm ss) = mset ss
   \<and> sorted_wrt (\<lambda>a b. tightness bm b < tightness bm a
        \<or> (tightness bm a = tightness bm b \<and> earliest_start a \<le> earliest_start b))
       (sort_sessions bm ss)
   \<and> greedy_run ss idx bm cap maxc
       = greedy_sessions idx bm cap maxc (sort_sessions bm ss) greedy_init
   \<and> tightness bm s
       = energy_kwh s / (max_kw s
           * max 1 (real_of_int (latest_end s - earliest_start s) / 60 / real_of_int bm)
           * (real_of_int bm / 60))"
  using sort_sessions_sorted [of bm ss]
  by (simp add: sort_sessions_def greedy_run_def tightness_def window_bins_def bin_hours_def)

theorem greedy_processing_order_witness:
  "map session_id (sort_sessions 15 [long_Y, short_X]) = [''X'', ''Y'']
   \<and> tightness 15 short_X = 21 / 25 \<and> tightness 15 long_Y = 7 / 10
   \<and> sorted_wrt (\<lambda>a b. tightness 15 b < tightness 15 a
        \<or> (tightness 15 a = tightness 15 b \<and> earliest_start a \<le> earliest_start b))
       (sort_sessions 15 [long_Y, short_X])"
proof -
  have "map session_id (sort_sessions 15 [long_Y, short_X]) = [''X'', ''Y'']"
    by code_simp
  moreover have "tightness 15 short_X = 21 / 25" "tightness 15 long_Y = 7 / 10"
    by code_simp+
  ultimately show ?thesis
    using greedy_processing_order [of 15 "[long_Y, short_X]"] by blast
qed

section \<open>Termination of the loops\<close>

lemma bin_step_pos: "0 < bm \<Longrightarrow> 0 < bin_step bm"
  by (simp add: bin_step_def)

text \<open>Invariant rule for the walk of one session; it also shows that the walk ends.\<close>

lemma baseline_walk_rule:
  assumes bm: "0 < bm"
    and init: "P ld needed t"
    and step_in: "\<And>ld needed t. P ld needed t \<Longrightarrow> tol < needed \<Longrightarrow> t < end \<Longrightarrow>
      t \<in> set idx \<Longrightarrow>
      P (ld(t := ld t + min needed (kw * bin_hours bm) / bin_hours bm))
        (needed - min needed (kw * bin_hours bm)) (t + bin_step bm)"
    and step_out: "\<And>ld needed t. P ld needed t \<Longrightarrow> tol < needed \<Longrightarrow> t < end \<Longrightarrow>
      t \<notin> set idx \<Longrightarrow> P ld needed (t + bin_step bm)"
  shows "\<exists>ld' n' t'. baseline_walk idx bm kw end ld needed t = Some (ld', n')
    \<and> P ld' n' t' \<and> \<not> (tol < n' \<and> t' < end)"
  using init
proof (induction "nat (end - t)" arbitrary: ld needed t rule: less_induct)
  case less
  have sp: "0 < bin_step bm" using bm by (rule bin_step_pos)
  show ?case
  proof (cases "tol < needed \<and> t < end")
    case False
    then have "baseline_walk idx bm kw end ld needed t = Some (ld, needed)"
      by (subst baseline_walk.simps) auto
    with False less.prems show ?thesis by blast
  next
    case True
    then have smaller: "nat (end - (t + bin_step bm)) < nat (end - t)"
      using sp by linarith
    show ?thesis
    proof (cases "t \<in> set idx")
      case in_idx: True
      have unf: "baseline_walk idx bm kw end ld needed t =
          baseline_walk idx bm kw end
            (ld(t := ld t + min needed (kw * bin_hours bm) / bin_hours bm))
            (needed - min needed (kw * bin_hours bm)) (t + bin_step bm)"
        using True in_idx by (subst baseline_walk.simps) (simp add: Let_def)
      have "P (ld(t := ld t + min needed (kw * bin_hours bm) / bin_hours bm))
          (needed - min needed (kw * bin_hours bm)) (t + bin_step bm)"
        using less.prems True in_idx by (intro step_in) auto
      with smaller show ?thesis
        unfolding unf by (rule less.hyps)
    next
      case out_idx: False
      have unf: "baseline_walk idx bm kw end ld needed t =
          baseline_walk idx bm kw end ld needed (t + bin_step bm)"
        using True out_idx by (subst baseline_walk.simps) simp
      have "P ld needed (t + bin_step bm)"
        using less.prems True out_idx by (intro step_out) auto
      with smaller show ?thesis
        unfolding unf by (rule less.hyps)
    qed
  qed
qed

lemma baseline_walk_returns:
  assumes "0 < bm"
  shows "\<exists>r. baseline_walk idx bm kw end ld needed t = Some r"
proof -
  have "\<exists>ld' n' t'. baseline_walk idx bm kw end ld needed t = Some (ld', n')
      \<and> True \<and> \<not> (tol < n' \<and> t' < end)"
    using assms by (rule baseline_walk_rule [where P = "\<lambda>ld n t. True"]) simp_all
  then show ?thesis by blast
qed

lemma baseline_sessions_returns:
  assumes "0 < bm"
  shows "\<exists>ld'. baseline_sessions idx bm ss ld = Some ld'"
proof (induction ss arbitrary: ld)
  case Nil
  then show ?case by simp
next
  case (Cons s ss)
  obtain r where "baseline_session idx bm s ld = Some r"
    unfolding baseline_session_def using baseline_walk_returns [OF assms] by blast
  with Cons show ?case by simp
qed

lemma greedy_while_iterations:
  "length (deliveries (fst (greedy_while bm cap maxc s kw st needed bins)))
     \<le> length (deliveries st) + length bins"
proof -
  have "\<exists>bins' :: timestamp list.
      length (deliveries (fst (greedy_while bm cap maxc s kw st needed bins)))
        + length bins' \<le> length (deliveries st) + length bins"
  proof (rule greedy_while_rule [where P = "\<lambda>st' n' bins'.
        length (deliveries st') + length bins' \<le> length (deliveries st) + length bins"])
    show "length (deliveries st) + length bins \<le> length (deliveries st) + length bins"
      by simp
  next
    fix st' :: greedy_state and n' :: real and bins' :: "timestamp list" and t :: timestamp
    assume inv: "length (deliveries st') + length bins' \<le> length (deliveries st) + length bins"
      and pk: "pick_bin kw cap maxc (load st') (chargers st') bins' = Some t"
    from pk have "t \<in> set bins'" using pick_bin_Some by blast
    then have "length (remove1 t bins') + 1 = length bins'"
      by (simp add: length_remove1) (cases bins'; simp)
    with inv show "length (deliveries (fst (deliver_into bm s kw st' n' t)))
        + length (remove1 t bins') \<le> length (deliveries st) + length bins"
      by (simp add: deliver_into_simps)
  qed
  then show ?thesis by auto
qed

text \<open>
  Claim C8. For a positive bin width both simulations return. The baseline walk of a
  session advances its time by one bin in every iteration, so it reaches
  \<open>latest_end\<close>, and \<open>baseline_load_curve\<close> returns a curve. Every iteration of the
  greedy loop removes the chosen bin from the candidate bins, so a session's loop makes
  at most as many deliveries as it has candidate bins (the greedy loops are total
  functions of the model, their termination is proved where they are defined).
\<close>

theorem loops_terminate:
  assumes "0 < bm"
  shows "(\<exists>ld. baseline_load_curve ss idx bm = Some ld)
    \<and> (\<exists>r. baseline_walk idx bm kw end ld0 needed t = Some r)
    \<and> (pick_bin kw cap maxc ld1 ch bins = Some u \<longrightarrow> length (remove1 u bins) < length bins)
    \<and> length (deliveries (fst (greedy_while bm cap maxc s kw st needed bins)))
         \<le> length (deliveries st) + length bins"
proof -
  have "length (remove1 u bins) < length bins"
    if "pick_bin kw cap maxc ld1 ch bins = Some u"
  proof -
    from that have "u \<in> set bins" using pick_bin_Some by blast
    then show ?thesis by (simp add: length_remove1) (cases bins; simp)
  qed
  then show ?thesis
    using baseline_sessions_returns [OF assms, of idx ss zero_load]
      baseline_walk_returns [OF assms, of idx kw "end" ld0 needed t]
      greedy_while_iterations [of bm cap maxc s kw st needed bins]
    by (simp add: baseline_load_curve_def)
qed

theorem loops_terminate_witness:
  "(0::int) < 15
   \<and> (\<exists>ld. baseline_load_curve [demo_A, demo_B] demo_grid 15 = Some ld)
   \<and> pick_bin 10 10 1 (load greedy_init) (chargers greedy_init) [0, 900] = Some 0
   \<and> length (remove1 0 [0, 900 :: int]) < length [0, 900 :: int]"
proof -
  have p: "pick_bin 10 10 1 (load greedy_init) (chargers greedy_init) [0, 900] = Some 0"
    by code_simp
  have b: "(0::int) < 15" by simp
  from loops_terminate [OF b, where ss = "[demo_A, demo_B]" and idx = demo_grid
      and kw = 10 and cap = 10 and maxc = 1 and ?ld1.0 = "load greedy_init"
      and ch = "chargers greedy_init" and bins = "[0, 900]" and u = 0] p b
  show ?thesis by simp
qed

section \<open>Baseline simulator: delivered energy\<close>

lemma sum_list_agree:
  fixes f g :: "real series"
  shows "\<forall>u \<in> set idx. f u = g u \<Longrightarrow> sum_list (map f idx) = sum_list (map g idx)"
  by (induction idx) auto

lemma sum_list_point_change:
  fixes f g :: "real series"
  assumes "distinct idx" and "t \<in> set idx" and "f t = g t + x"
    and "\<forall>u. u \<noteq> t \<longrightarrow> f u = g u"
  shows "sum_list (map f idx) = sum_list (map g idx) + x"
  using assms(1,2)
proof (induction idx)
  case Nil
  then show ?case by simp
next
  case (Cons a idx)
  show ?case
  proof (cases "a = t")
    case True
    with Cons.prems have "\<forall>u \<in> set idx. f u = g u"
      using assms(4) by auto
    then have "sum_list (map f idx) = sum_list (map g idx)"
      by (rule sum_list_agree)
    with True assms(3) show ?thesis by simp
  next
    case False
    with Cons.prems have "distinct idx" "t \<in> set idx" by auto
    then have "sum_list (map f idx) = sum_list (map g idx) + x"
      by (rule Cons.IH)
    with False assms(4) show ?thesis by simp
  qed
qed

lemma sum_list_fun_upd:
  fixes ld :: "real series"
  assumes "distinct idx" and "t \<in> set idx"
  shows "sum_list (map (ld(t := ld t + x)) idx) = sum_list (map ld idx) + x"
  using assms by (rule sum_list_point_change) simp_all

lemma walk_points_step:
  assumes "0 < bm" and "t < e"
  shows "nat ((e - (t + bin_step bm) + bin_step bm - 1) div bin_step bm) + 1
       = nat ((e - t + bin_step bm - 1) div bin_step bm)"
proof -
  have sp: "0 < bin_step bm" using assms(1) by (rule bin_step_pos)
  have a: "((e - t - 1) + bin_step bm) div bin_step bm = (e - t - 1) div bin_step bm + 1"
    using sp by (simp add: div_add_self2)
  have b: "e - t + bin_step bm - 1 = (e - t - 1) + bin_step bm" by simp
  have "(e - t + bin_step bm - 1) div bin_step bm = (e - t - 1) div bin_step bm + 1"
    by (simp only: a b)
  moreover have "0 \<le> (e - t - 1) div bin_step bm"
    using sp assms(2) by (simp add: pos_imp_zdiv_nonneg_iff)
  moreover have "e - (t + bin_step bm) + bin_step bm - 1 = e - t - 1" by simp
  ultimately show ?thesis by (simp add: nat_add_distrib)
qed

lemma walk_points_done:
  assumes "0 < bm" and "e \<le> t"
  shows "nat ((e - t + bin_step bm - 1) div bin_step bm) = 0"
proof -
  have sp: "0 < bin_step bm" using assms(1) by (rule bin_step_pos)
  have "e - t + bin_step bm - 1 \<le> bin_step bm - 1" using assms(2) by simp
  then have "(e - t + bin_step bm - 1) div bin_step bm \<le> (bin_step bm - 1) div bin_step bm"
    using sp by (rule zdiv_mono1)
  moreover have "(bin_step bm - 1) div bin_step bm = 0"
    using sp by (simp add: div_pos_pos_trivial)
  ultimately show ?thesis by simp
qed

lemma tol_pos: "0 < tol"
  by (simp add: tol_def)

lemma baseline_walk_bounds:
  assumes "0 < bm" and "0 \<le> needed" and "0 \<le> kw"
  shows "\<exists>ld' n'. baseline_walk idx bm kw e ld needed t = Some (ld', n')
    \<and> 0 \<le> n' \<and> n' \<le> needed"
proof -
  have kb: "0 \<le> kw * bin_hours bm"
    using assms(1,3) bin_hours_pos [of bm] by simp
  have "\<exists>ld' n' t'. baseline_walk idx bm kw e ld needed t = Some (ld', n')
      \<and> (0 \<le> n' \<and> n' \<le> needed) \<and> \<not> (tol < n' \<and> t' < e)"
    using assms(1)
  proof (rule baseline_walk_rule [where P = "\<lambda>ld' n' t'. 0 \<le> n' \<and> n' \<le> needed"])
    show "0 \<le> needed \<and> needed \<le> needed" using assms(2) by simp
  next
    fix ld' :: "real series" and n' :: real and u :: timestamp
    assume "0 \<le> n' \<and> n' \<le> needed"
    with kb show "0 \<le> n' - min n' (kw * bin_hours bm)
        \<and> n' - min n' (kw * bin_hours bm) \<le> needed"
      by (auto simp: min_def)
  qed simp
  then show ?thesis by blast
qed

lemma baseline_walk_load:
  assumes "0 < bm" and "distinct idx"
  shows "\<exists>ld' n'. baseline_walk idx bm kw e ld needed t = Some (ld', n')
    \<and> (sum_list (map ld' idx) - sum_list (map ld idx)) * bin_hours bm = needed - n'"
proof -
  have pos: "0 < bin_hours bm" using assms(1) by (rule bin_hours_pos)
  have "\<exists>ld' n' t'. baseline_walk idx bm kw e ld needed t = Some (ld', n')
      \<and> (sum_list (map ld' idx) - sum_list (map ld idx)) * bin_hours bm = needed - n'
      \<and> \<not> (tol < n' \<and> t' < e)"
    using assms(1)
  proof (rule baseline_walk_rule [where P = "\<lambda>ld' n' t'.
      (sum_list (map ld' idx) - sum_list (map ld idx)) * bin_hours bm = needed - n'"])
    show "(sum_list (map ld idx) - sum_list (map ld idx)) * bin_hours bm = needed - needed"
      by simp
  next
    fix ld' :: "real series" and n' :: real and u :: timestamp
    assume inv: "(sum_list (map ld' idx) - sum_list (map ld idx)) * bin_hours bm = needed - n'"
      and u: "u \<in> set idx"
    have "sum_list (map (ld'(u := ld' u + min n' (kw * bin_hours bm) / bin_hours bm)) idx)
        = sum_list (map ld' idx) + min n' (kw * bin_hours bm) / bin_hours bm"
      using assms(2) u by (rule sum_list_fun_upd)
    then have "(sum_list (map (ld'(u := ld' u + min n' (kw * bin_hours bm) / bin_hours bm)) idx)
          - sum_list (map ld idx)) * bin_hours bm
        = (sum_list (map ld' idx) - sum_list (map ld idx)) * bin_hours bm
          + min n' (kw * bin_hours bm)"
      using pos by (simp add: algebra_simps)
    with inv show "(sum_list (map (ld'(u := ld' u + min n' (kw * bin_hours bm) / bin_hours bm)) idx)
          - sum_list (map ld idx)) * bin_hours bm
        = needed - (n' - min n' (kw * bin_hours bm))"
      by simp
  qed simp
  then show ?thesis by blast
qed

lemma baseline_walk_first_bin:
  assumes "0 < bm" and "t \<in> set idx" and "tol < needed" and "t < e"
  shows "\<exists>ld' n'. baseline_walk idx bm kw e ld needed t = Some (ld', n')
    \<and> ld' t = ld t + min needed (kw * bin_hours bm) / bin_hours bm"
proof -
  have sp: "0 < bin_step bm" using assms(1) by (rule bin_step_pos)
  have "\<exists>ld' n' t'. baseline_walk idx bm kw e ld needed t = Some (ld', n')
      \<and> ((t' = t \<and> ld' = ld \<and> n' = needed)
         \<or> (t < t' \<and> ld' t = ld t + min needed (kw * bin_hours bm) / bin_hours bm))
      \<and> \<not> (tol < n' \<and> t' < e)"
    using assms(1)
  proof (rule baseline_walk_rule [where P = "\<lambda>ld' n' t'. (t' = t \<and> ld' = ld \<and> n' = needed)
         \<or> (t < t' \<and> ld' t = ld t + min needed (kw * bin_hours bm) / bin_hours bm)"])
    show "(t = t \<and> ld = ld \<and> needed = needed)
         \<or> (t < t \<and> ld t = ld t + min needed (kw * bin_hours bm) / bin_hours bm)"
      by simp
  next
    fix ld' :: "real series" and n' :: real and u :: timestamp
    assume "(u = t \<and> ld' = ld \<and> n' = needed)
         \<or> (t < u \<and> ld' t = ld t + min needed (kw * bin_hours bm) / bin_hours bm)"
    with sp show "(u + bin_step bm = t
          \<and> ld'(u := ld' u + min n' (kw * bin_hours bm) / bin_hours bm) = ld
          \<and> n' - min n' (kw * bin_hours bm) = needed)
         \<or> (t < u + bin_step bm
          \<and> (ld'(u := ld' u + min n' (kw * bin_hours bm) / bin_hours bm)) t
              = ld t + min needed (kw * bin_hours bm) / bin_hours bm)"
      by auto
  next
    fix ld' :: "real series" and n' :: real and u :: timestamp
    assume "(u = t \<and> ld' = ld \<and> n' = needed)
         \<or> (t < u \<and> ld' t = ld t + min needed (kw * bin_hours bm) / bin_hours bm)"
      and "u \<notin> set idx"
    with sp assms(2) show "(u + bin_step bm = t \<and> ld' = ld \<and> n' = needed)
         \<or> (t < u + bin_step bm
          \<and> ld' t = ld t + min needed (kw * bin_hours bm) / bin_hours bm)"
      by auto
  qed
  with assms(3,4) show ?thesis by blast
qed

lemma baseline_walk_full:
  assumes "0 < bm" and "0 \<le> kw"
    and grid: "\<forall>k::nat. t + int k * bin_step bm < e \<longrightarrow> t + int k * bin_step bm \<in> set idx"
    and cap: "needed \<le> kw * bin_hours bm
        * real (nat ((e - t + bin_step bm - 1) div bin_step bm))"
  shows "\<exists>ld' n'. baseline_walk idx bm kw e ld needed t = Some (ld', n') \<and> n' \<le> tol"
proof -
  have kb: "0 \<le> kw * bin_hours bm"
    using assms(1,2) bin_hours_pos [of bm] by simp
  have "\<exists>ld' n' t'. baseline_walk idx bm kw e ld needed t = Some (ld', n')
      \<and> ((\<exists>k::nat. t' = t + int k * bin_step bm)
         \<and> n' \<le> kw * bin_hours bm
              * real (nat ((e - t' + bin_step bm - 1) div bin_step bm)))
      \<and> \<not> (tol < n' \<and> t' < e)"
    using assms(1)
  proof (rule baseline_walk_rule [where P = "\<lambda>ld' n' t'.
        (\<exists>k::nat. t' = t + int k * bin_step bm)
         \<and> n' \<le> kw * bin_hours bm
              * real (nat ((e - t' + bin_step bm - 1) div bin_step bm))"])
    show "(\<exists>k::nat. t = t + int k * bin_step bm)
         \<and> needed \<le> kw * bin_hours bm
              * real (nat ((e - t + bin_step bm - 1) div bin_step bm))"
      using cap by (auto intro: exI [of _ 0])
  next
    fix ld' :: "real series" and n' :: real and u :: timestamp
    assume inv: "(\<exists>k::nat. u = t + int k * bin_step bm)
         \<and> n' \<le> kw * bin_hours bm
              * real (nat ((e - u + bin_step bm - 1) div bin_step bm))"
      and ue: "u < e"
    from inv obtain k :: nat where k: "u = t + int k * bin_step bm" by blast
    have "u + bin_step bm = t + int (Suc k) * bin_step bm"
      by (simp add: k algebra_simps)
    then have pt: "\<exists>k::nat. u + bin_step bm = t + int k * bin_step bm" by blast
    have cnt: "real (nat ((e - u + bin_step bm - 1) div bin_step bm))
        = real (nat ((e - (u + bin_step bm) + bin_step bm - 1) div bin_step bm)) + 1"
      using walk_points_step [OF assms(1) ue] by linarith
    have "n' - min n' (kw * bin_hours bm) \<le> kw * bin_hours bm
        * real (nat ((e - (u + bin_step bm) + bin_step bm - 1) div bin_step bm))"
    proof (cases "n' \<le> kw * bin_hours bm")
      case True
      then have "n' - min n' (kw * bin_hours bm) = 0" by simp
      with kb show ?thesis by simp
    next
      case False
      then have "n' - min n' (kw * bin_hours bm) = n' - kw * bin_hours bm" by simp
      moreover have "n' \<le> kw * bin_hours bm
          * (real (nat ((e - (u + bin_step bm) + bin_step bm - 1) div bin_step bm)) + 1)"
        using inv by (simp only: cnt)
      ultimately show ?thesis by (simp add: algebra_simps)
    qed
    with pt show "(\<exists>k::nat. u + bin_step bm = t + int k * bin_step bm)
         \<and> n' - min n' (kw * bin_hours bm) \<le> kw * bin_hours bm
              * real (nat ((e - (u + bin_step bm) + bin_step bm - 1) div bin_step bm))"
      by blast
  next
    fix ld' :: "real series" and n' :: real and u :: timestamp
    assume inv: "(\<exists>k::nat. u = t + int k * bin_step bm)
         \<and> n' \<le> kw * bin_hours bm
              * real (nat ((e - u + bin_step bm - 1) div bin_step bm))"
      and ue: "u < e" and out: "u \<notin> set idx"
    from inv grid ue out have False by blast
    then show "(\<exists>k::nat. u + bin_step bm = t + int k * bin_step bm)
         \<and> n' \<le> kw * bin_hours bm
              * real (nat ((e - (u + bin_step bm) + bin_step bm - 1) div bin_step bm))"
      by simp
  qed
  then obtain ld' n' t' where r: "baseline_walk idx bm kw e ld needed t = Some (ld', n')"
    and b: "n' \<le> kw * bin_hours bm * real (nat ((e - t' + bin_step bm - 1) div bin_step bm))"
    and ex: "\<not> (tol < n' \<and> t' < e)"
    by blast
  have "n' \<le> tol"
  proof (cases "t' < e")
    case True
    with ex show ?thesis by simp
  next
    case False
    then have "nat ((e - t' + bin_step bm - 1) div bin_step bm) = 0"
      using walk_points_done [OF assms(1), of e t'] by simp
    with b have "n' \<le> 0" by simp
    with tol_pos show ?thesis by linarith
  qed
  with r show ?thesis by blast
qed

lemma make_time_index_window:
  assumes bm: "0 < bm" and t: "t \<in> set (make_time_index gs ge bm)" and e: "e \<le> ge"
    and k: "t + int k * bin_step bm < e"
  shows "t + int k * bin_step bm \<in> set (make_time_index gs ge bm)"
proof -
  have sp: "0 < bin_step bm" using bm by (rule bin_step_pos)
  define N where "N = nat ((ge - gs + bin_step bm - 1) div bin_step bm)"
  from t obtain j where j: "j < N" "t = gs + int j * bin_step bm"
    by (auto simp: make_time_index_def N_def)
  have "int (j + k) * bin_step bm < ge - gs"
    using j(2) k e by (simp add: algebra_simps)
  then have "(int (j + k) + 1) * bin_step bm \<le> ge - gs + bin_step bm - 1"
    by (simp add: algebra_simps)
  then have "((int (j + k) + 1) * bin_step bm) div bin_step bm
      \<le> (ge - gs + bin_step bm - 1) div bin_step bm"
    using sp by (rule zdiv_mono1)
  then have "int (j + k) + 1 \<le> (ge - gs + bin_step bm - 1) div bin_step bm"
    using sp by simp
  then have "j + k < N"
    unfolding N_def by linarith
  moreover have "t + int k * bin_step bm = gs + int (j + k) * bin_step bm"
    by (simp add: j(2) algebra_simps)
  ultimately show ?thesis
    by (auto simp: make_time_index_def N_def intro!: image_eqI [where x = "j + k"])
qed

text \<open>
  Claim C3, as stated, says that a session delivers exactly \<open>energy_kwh\<close> whenever
  its window lies inside the time grid. The walk stops at \<open>latest_end\<close> whatever is
  left: a session whose window is the first bin of the grid and that asks for 100 kWh
  at 10 kW delivers 2.5 kWh.
\<close>

theorem baseline_window_inside_grid_counterexample:
  "hour_grid = [0, 900, 1800, 2700]
   \<and> earliest_start hungry = 0 \<and> latest_end hungry = 900 \<and> energy_kwh hungry = 100
   \<and> baseline_delivered hour_grid 15 hungry zero_load = Some (5 / 2)"
  by code_simp

text \<open>
  Claim C3, amended. For a positive bin width and a session with \<open>energy_kwh \<ge> 0\<close>
  and \<open>max_kw \<ge> 0\<close>, the baseline walk returns, the energy it delivers is between 0
  and \<open>energy_kwh\<close>, and on a grid without repeated labels the load curve grows by
  that energy. When \<open>earliest_start\<close> is a label of the grid and there is something to
  deliver, the walk starts at that bin: the first delivery is there. When moreover the
  window \<open>[earliest_start, latest_end)\<close> lies inside the grid made by
  \<open>make_time_index\<close> and \<open>energy_kwh\<close> is at most \<open>max_kw * bin_hours\<close> times the number
  of bins of the window, the session delivers \<open>energy_kwh\<close> up to the tolerance \<open>1e-6\<close>
  of the loop.
\<close>

theorem baseline_delivers_within_request:
  assumes "0 < bm" and "0 \<le> energy_kwh s" and "0 \<le> max_kw s" and "distinct idx"
  shows "\<exists>ld' left. baseline_session idx bm s ld = Some (ld', left)
    \<and> baseline_delivered idx bm s ld = Some (energy_kwh s - left)
    \<and> 0 \<le> left \<and> left \<le> energy_kwh s
    \<and> (sum_list (map ld' idx) - sum_list (map ld idx)) * bin_hours bm = energy_kwh s - left
    \<and> (earliest_start s \<in> set idx \<and> tol < energy_kwh s \<and> earliest_start s < latest_end s
         \<longrightarrow> ld' (earliest_start s)
             = ld (earliest_start s)
               + min (energy_kwh s) (max_kw s * bin_hours bm) / bin_hours bm)
    \<and> (idx = make_time_index gs ge bm \<and> earliest_start s \<in> set idx \<and> latest_end s \<le> ge
         \<and> energy_kwh s \<le> max_kw s * bin_hours bm * real (walk_points bm s)
         \<longrightarrow> left \<le> tol)"
proof -
  from baseline_walk_bounds [OF assms(1,2,3), where idx = idx and e = "latest_end s"
      and ld = ld and t = "earliest_start s"]
  obtain ld' left where r: "baseline_walk idx bm (max_kw s) (latest_end s) ld (energy_kwh s)
        (earliest_start s) = Some (ld', left)"
    and b: "0 \<le> left" "left \<le> energy_kwh s"
    by blast
  from baseline_walk_load [OF assms(1,4), where kw = "max_kw s" and e = "latest_end s"
      and ld = ld and needed = "energy_kwh s" and t = "earliest_start s"] r
  have l: "(sum_list (map ld' idx) - sum_list (map ld idx)) * bin_hours bm
      = energy_kwh s - left"
    by auto
  have f: "ld' (earliest_start s)
      = ld (earliest_start s) + min (energy_kwh s) (max_kw s * bin_hours bm) / bin_hours bm"
    if "earliest_start s \<in> set idx" and "tol < energy_kwh s"
      and "earliest_start s < latest_end s"
    using baseline_walk_first_bin [OF assms(1) that, where kw = "max_kw s" and ld = ld] r
    by auto
  have g: "left \<le> tol"
    if i: "idx = make_time_index gs ge bm" and m: "earliest_start s \<in> set idx"
      and e: "latest_end s \<le> ge"
      and c: "energy_kwh s \<le> max_kw s * bin_hours bm * real (walk_points bm s)"
  proof -
    have w: "\<forall>k::nat. earliest_start s + int k * bin_step bm < latest_end s
          \<longrightarrow> earliest_start s + int k * bin_step bm \<in> set idx"
      using make_time_index_window [OF assms(1) _ e] m unfolding i by blast
    show ?thesis
      using baseline_walk_full [OF assms(1,3) w, where needed = "energy_kwh s" and ld = ld] c r
      by (auto simp: walk_points_def)
  qed
  have f': "earliest_start s \<in> set idx \<and> tol < energy_kwh s \<and> earliest_start s < latest_end s
         \<longrightarrow> ld' (earliest_start s)
             = ld (earliest_start s)
               + min (energy_kwh s) (max_kw s * bin_hours bm) / bin_hours bm"
    using f by blast
  have g': "idx = make_time_index gs ge bm \<and> earliest_start s \<in> set idx \<and> latest_end s \<le> ge
         \<and> energy_kwh s \<le> max_kw s * bin_hours bm * real (walk_points bm s)
         \<longrightarrow> left \<le> tol"
    using g by blast
  have bs: "baseline_session idx bm s ld = Some (ld', left)"
    using r by (simp add: baseline_session_def)
  then have bd: "baseline_delivered idx bm s ld = Some (energy_kwh s - left)"
    by (simp add: baseline_delivered_def)
  from bs bd b l f' g' show ?thesis by blast
qed

theorem baseline_delivers_within_request_witness:
  "(0::int) < 15 \<and> 0 \<le> energy_kwh demo_A \<and> 0 \<le> max_kw demo_A \<and> distinct demo_grid
   \<and> demo_grid = make_time_index 64800 86400 15
   \<and> earliest_start demo_A \<in> set demo_grid \<and> latest_end demo_A \<le> 86400
   \<and> tol < energy_kwh demo_A \<and> earliest_start demo_A < latest_end demo_A
   \<and> energy_kwh demo_A \<le> max_kw demo_A * bin_hours 15 * real (walk_points 15 demo_A)
   \<and> (\<exists>ld' left. baseline_session demo_grid 15 demo_A zero_load = Some (ld', left)
        \<and> 0 \<le> left \<and> left \<le> tol \<and> ld' 64800 = 10)"
proof -
  have a: "(0::int) < 15" by simp
  have b: "0 \<le> energy_kwh demo_A" "0 \<le> max_kw demo_A" by (simp_all add: demo_A_def)
  have c: "distinct demo_grid" by (simp add: demo_grid_eval)
  have d: "earliest_start demo_A \<in> set demo_grid" by (simp add: demo_grid_eval demo_A_def)
  have e: "tol < energy_kwh demo_A" "earliest_start demo_A < latest_end demo_A"
    by (simp_all add: demo_A_def tol_def)
  have f: "energy_kwh demo_A \<le> max_kw demo_A * bin_hours 15 * real (walk_points 15 demo_A)"
    by (simp add: demo_A_def bin_hours_def walk_points_def bin_step_def)
  have g: "demo_grid = make_time_index 64800 86400 15" by (rule demo_grid_def)
  have h: "latest_end demo_A \<le> 86400" by (simp add: demo_A_def)
  have i: "earliest_start demo_A = 64800" by (simp add: demo_A_def)
  from baseline_delivers_within_request [OF a b c, of zero_load 64800 86400] d e f g h
  obtain ld' left where r: "baseline_session demo_grid 15 demo_A zero_load = Some (ld', left)"
    and l: "0 \<le> left" "left \<le> tol"
    and v: "ld' (earliest_start demo_A) = zero_load (earliest_start demo_A)
      + min (energy_kwh demo_A) (max_kw demo_A * bin_hours 15) / bin_hours 15"
    by blast
  from v have "ld' 64800 = zero_load 64800
      + min (energy_kwh demo_A) (max_kw demo_A * bin_hours 15) / bin_hours 15"
    by (simp only: i)
  also have "\<dots> = 10"
    by (simp add: demo_A_def zero_load_def bin_hours_def)
  finally have "ld' 64800 = 10" .
  with a b c d e f g h r l show ?thesis by blast
qed

text \<open>
  A session whose \<open>earliest_start\<close> is not a label of the grid is outside the statement
  above. On the grid of one hour, the session that starts five minutes into the first
  bin gets nothing from the baseline walk, while the greedy scheduler serves it in the
  bin that starts at 00:15.
\<close>

lemma baseline_unaligned_start:
  "earliest_start late_Z = 300 \<and> latest_end late_Z = 3600 \<and> energy_kwh late_Z = 1
   \<and> baseline_delivered hour_grid 15 late_Z zero_load = Some 0
   \<and> map row_bin_start (fst (greedy_optimize_schedule [late_Z] hour_grid 15 10 1)) = [900]
   \<and> map row_kwh (fst (greedy_optimize_schedule [late_Z] hour_grid 15 10 1)) = [1]"
  by code_simp

end
